theory Spec2Isabelle
  imports Main
begin

section \<open>Python values used by \<open>hyfetch/presets.py\<close>\<close>

text \<open>
  Python's \<open>int\<close> is unbounded and is modelled by \<open>int\<close>. Floor division
  \<open>//\<close> and the remainder \<open>%\<close> of Python agree with the integer quotient and
  remainder of HOL, which also take the floor. A Python
  \<open>str\<close> is a sequence of Unicode code points, and \<open>len\<close> counts code points, so a text
  is a list of code points. The names and hex literals of the preset table are ASCII and
  are kept as \<open>string\<close>.
\<close>

datatype error = IndexError | ZeroDivisionError | ColorParseError

type_synonym str = "nat list"

definition str_of :: "string \<Rightarrow> str" where
  "str_of s = map of_char s"

text \<open>
  Modelled from the spec: the class \<open>RGB\<close> of \<open>color_util\<close> is imported but not part of
  the sources; the spec describes it as a triple of components (r, g, b).
\<close>

datatype RGB = RGB nat nat nat

datatype spacing = Equal | Weighted

record ColorProfile =
  raw :: "string list option"
  colors :: "RGB list"
  spacing :: spacing

subsection \<open>List indexing\<close>

text \<open>
  \<open>xs[i]\<close> in Python: a negative index counts from the end, and an index out of range
  raises \<open>IndexError\<close>.
\<close>

definition py_index :: "nat \<Rightarrow> int \<Rightarrow> error + nat" where
  "py_index n i =
     (let j = (if i < 0 then i + int n else i)
      in if 0 \<le> j \<and> j < int n then Inr (nat j) else Inl IndexError)"

definition getitem :: "'a list \<Rightarrow> int \<Rightarrow> error + 'a" where
  "getitem xs i = (case py_index (length xs) i of Inl e \<Rightarrow> Inl e | Inr j \<Rightarrow> Inr (xs ! j))"

text \<open>\<open>xs[i] += v\<close> on a list of integers.\<close>

definition iadd_item :: "int list \<Rightarrow> int \<Rightarrow> int \<Rightarrow> error + int list" where
  "iadd_item xs i v =
     (case py_index (length xs) i of Inl e \<Rightarrow> Inl e | Inr j \<Rightarrow> Inr (xs[j := xs ! j + v]))"

section \<open>\<open>ColorProfile\<close>\<close>

subsection \<open>\<open>__init__\<close>\<close>

text \<open>
  The argument is a list of hex strings or a list of \<open>RGB\<close> values. The test
  \<open>isinstance(colors[0], str)\<close> reads the first element, which raises \<open>IndexError\<close> on an
  empty list. \<open>RGB.from_hex\<close> is not part of the sources and is a parameter; the list
  comprehension stops at the first element on which it raises. The class attribute
  \<open>spacing\<close> is \<open>'equal'\<close> and no method assigns it; \<open>raw\<close> is only set for hex input.
\<close>

datatype colors_arg = Strs "string list" | RGBs "RGB list"

fun from_hex_all :: "(string \<Rightarrow> error + RGB) \<Rightarrow> string list \<Rightarrow> error + RGB list" where
  "from_hex_all from_hex [] = Inr []"
| "from_hex_all from_hex (c # cs) =
     (case from_hex c of
        Inl e \<Rightarrow> Inl e
      | Inr x \<Rightarrow> (case from_hex_all from_hex cs of Inl e \<Rightarrow> Inl e | Inr xs \<Rightarrow> Inr (x # xs)))"

fun init :: "(string \<Rightarrow> error + RGB) \<Rightarrow> colors_arg \<Rightarrow> error + ColorProfile" where
  "init from_hex (Strs []) = Inl IndexError"
| "init from_hex (RGBs []) = Inl IndexError"
| "init from_hex (Strs cs) =
     (case from_hex_all from_hex cs of
        Inl e \<Rightarrow> Inl e
      | Inr xs \<Rightarrow> Inr \<lparr>raw = Some cs, colors = xs, spacing = Equal\<rparr>)"
| "init from_hex (RGBs xs) = Inr \<lparr>raw = None, colors = xs, spacing = Equal\<rparr>"

subsection \<open>\<open>with_weights\<close>\<close>

text \<open>
  \<open>[c for i, w in enumerate(weights) for c in [self.colors[i]] * w]\<close>: for each weight in
  turn \<open>self.colors[i]\<close> is read (an \<open>IndexError\<close> when there are more weights than colors)
  and repeated \<open>w\<close> times; a list times a negative number is empty.
\<close>

fun with_weights_from :: "RGB list \<Rightarrow> nat \<Rightarrow> int list \<Rightarrow> error + RGB list" where
  "with_weights_from cs i [] = Inr []"
| "with_weights_from cs i (w # ws) =
     (case getitem cs (int i) of
        Inl e \<Rightarrow> Inl e
      | Inr c \<Rightarrow>
          (case with_weights_from cs (Suc i) ws of
             Inl e \<Rightarrow> Inl e
           | Inr rest \<Rightarrow> Inr (replicate (nat w) c @ rest)))"

definition with_weights :: "ColorProfile \<Rightarrow> int list \<Rightarrow> error + RGB list" where
  "with_weights p weights = with_weights_from (colors p) 0 weights"

subsection \<open>\<open>with_length\<close>\<close>

text \<open>
  The \<open>while extras > 0\<close> loop. Its state is \<open>(extras, weights, border_i)\<close>; the body is
  \<open>extras -= 2; weights[border_i] += 1; weights[-(border_i + 1)] += 1; border_i += 1\<close>.
\<close>

type_synonym border_state = "int \<times> int list \<times> int"

definition border_body :: "border_state \<Rightarrow> error + border_state" where
  "border_body s =
     (case s of (extras, weights, border_i) \<Rightarrow>
        (case iadd_item weights border_i 1 of
           Inl e \<Rightarrow> Inl e
         | Inr w1 \<Rightarrow>
             (case iadd_item w1 (- (border_i + 1)) 1 of
                Inl e \<Rightarrow> Inl e
              | Inr w2 \<Rightarrow> Inr (extras - 2, w2, border_i + 1))))"

function border_loop :: "border_state \<Rightarrow> error + border_state" where
  "border_loop s =
     (if fst s > 0
      then (case border_body s of Inl e \<Rightarrow> Inl e | Inr s' \<Rightarrow> border_loop s')
      else Inr s)"
  by pat_completeness auto
termination
proof (relation "measure (\<lambda>s. nat (fst s))")
  show "wf (measure (\<lambda>s. nat (fst s)))" by simp
next
  fix s :: border_state and s' :: border_state
  assume pos: "0 < fst s" and step: "border_body s = Inr s'"
  obtain extras weights border_i where s: "s = (extras, weights, border_i)"
    by (cases s)
  from step have "fst s' = extras - 2"
    unfolding s by (auto simp: border_body_def split: sum.splits)
  with pos s show "(s', s) \<in> measure (\<lambda>s. nat (fst s))"
    by simp
qed

declare border_loop.simps [simp del]

text \<open>
  \<open>with_length\<close> up to the loop: the state with which the loop is entered.
  \<open>length // preset_len\<close> raises \<open>ZeroDivisionError\<close> when the palette is empty.
\<close>

definition border_entry :: "ColorProfile \<Rightarrow> int \<Rightarrow> error + border_state" where
  "border_entry p length' =
     (let preset_len = length (colors p);
          center_i = int preset_len div 2
      in if preset_len = 0 then Inl ZeroDivisionError
         else
           let repeats = length' div int preset_len;
               weights = replicate preset_len repeats;
               extras = length' mod int preset_len
           in if extras mod 2 = 1
              then (case iadd_item weights center_i 1 of
                      Inl e \<Rightarrow> Inl e
                    | Inr w \<Rightarrow> Inr (extras - 1, w, 0))
              else Inr (extras, weights, 0))"

text \<open>The weight vector that \<open>with_length\<close> hands to \<open>with_weights\<close>.\<close>

definition with_length_weights :: "ColorProfile \<Rightarrow> int \<Rightarrow> error + int list" where
  "with_length_weights p length' =
     (case border_entry p length' of
        Inl e \<Rightarrow> Inl e
      | Inr s \<Rightarrow>
          (case border_loop s of
             Inl e \<Rightarrow> Inl e
           | Inr s' \<Rightarrow> Inr (fst (snd s'))))"

definition with_length :: "ColorProfile \<Rightarrow> int \<Rightarrow> error + RGB list" where
  "with_length p length' =
     (case with_length_weights p length' of
        Inl e \<Rightarrow> Inl e
      | Inr weights \<Rightarrow> with_weights p weights)"

text \<open>
  The loop cut off after at most \<open>n\<close> passes: the state at the loop head then. It is used
  to speak about the states the loop goes through, not only about its result.
\<close>

fun border_iter :: "nat \<Rightarrow> border_state \<Rightarrow> error + border_state" where
  "border_iter 0 s = Inr s"
| "border_iter (Suc n) s =
     (if fst s > 0
      then (case border_body s of Inl e \<Rightarrow> Inl e | Inr s' \<Rightarrow> border_iter n s')
      else Inr s)"

subsection \<open>\<open>color_text\<close>\<close>

definition space :: nat where
  "space = of_char (CHR '' '')"

definition reset :: str where
  "reset = str_of [CHR 0x1B, CHR ''['', CHR ''0'', CHR ''m'']"

text \<open>
  The \<open>for i, t in enumerate(txt)\<close> loop: \<open>i\<close> is the index of \<open>t\<close>, the list argument is
  what is left of \<open>txt\<close>, \<open>result\<close> the string built so far. \<open>to_ansi_rgb\<close> belongs to
  \<open>color_util\<close>, which is not part of the sources, and is a parameter. \<open>i > 0 and
  txt[i - 1] == ' '\<close> reads \<open>txt[i - 1]\<close> only when \<open>i > 0\<close>.
\<close>

fun color_text_loop ::
  "(RGB \<Rightarrow> bool \<Rightarrow> str) \<Rightarrow> RGB list \<Rightarrow> str \<Rightarrow> bool \<Rightarrow> bool \<Rightarrow> nat \<Rightarrow> str \<Rightarrow> str
     \<Rightarrow> error + str" where
  "color_text_loop to_ansi_rgb cs txt foreground space_only i [] result = Inr result"
| "color_text_loop to_ansi_rgb cs txt foreground space_only i (t # ts) result =
     (if space_only \<and> t \<noteq> space
      then (case (if i > 0
                  then (case getitem txt (int i - 1) of
                          Inl e \<Rightarrow> Inl e
                        | Inr prev \<Rightarrow> Inr (if prev = space then result @ reset else result))
                  else Inr result) of
              Inl e \<Rightarrow> Inl e
            | Inr result1 \<Rightarrow>
                color_text_loop to_ansi_rgb cs txt foreground space_only (Suc i) ts
                  (result1 @ [t]))
      else (case getitem cs (int i) of
              Inl e \<Rightarrow> Inl e
            | Inr c \<Rightarrow>
                color_text_loop to_ansi_rgb cs txt foreground space_only (Suc i) ts
                  (result @ to_ansi_rgb c foreground @ [t])))"

definition color_text ::
  "(RGB \<Rightarrow> bool \<Rightarrow> str) \<Rightarrow> ColorProfile \<Rightarrow> str \<Rightarrow> bool \<Rightarrow> bool \<Rightarrow> error + str" where
  "color_text to_ansi_rgb p txt foreground space_only =
     (case with_length p (int (length txt)) of
        Inl e \<Rightarrow> Inl e
      | Inr cs \<Rightarrow>
          (case color_text_loop to_ansi_rgb cs txt foreground space_only 0 txt [] of
             Inl e \<Rightarrow> Inl e
           | Inr result \<Rightarrow> Inr (result @ reset)))"

section \<open>The preset table\<close>

text \<open>
  The entries of the dictionary display \<open>PRESETS\<close> in the order they are written: the key
  and the list of hex strings given to \<open>ColorProfile\<close>.
\<close>

definition PRESETS_literal :: "(string \<times> string list) list" where
  "PRESETS_literal =
   [
    (''rainbow'',
      [''#E50000'', ''#FF8D00'', ''#FFEE00'', ''#028121'', ''#004CFF'', ''#770088'']),
    (''transgender'',
      [''#55CDFD'', ''#F6AAB7'', ''#FFFFFF'', ''#F6AAB7'', ''#55CDFD'']),
    (''nonbinary'',
      [''#FCF431'', ''#FCFCFC'', ''#9D59D2'', ''#282828'']),
    (''agender'',
      [''#000000'', ''#BABABA'', ''#FFFFFF'', ''#BAF484'', ''#FFFFFF'', ''#BABABA'',
       ''#000000'']),
    (''queer'',
      [''#B57FDD'', ''#FFFFFF'', ''#49821E'']),
    (''genderfluid'',
      [''#FE76A2'', ''#FFFFFF'', ''#BF12D7'', ''#000000'', ''#303CBE'']),
    (''bisexual'',
      [''#D60270'', ''#9B4F96'', ''#0038A8'']),
    (''pansexual'',
      [''#FF1C8D'', ''#FFD700'', ''#1AB3FF'']),
    (''lesbian'',
      [''#D62800'', ''#FF9B56'', ''#FFFFFF'', ''#D462A6'', ''#A40062'']),
    (''asexual'',
      [''#000000'', ''#A4A4A4'', ''#FFFFFF'', ''#810081'']),
    (''aromantic'',
      [''#3BA740'', ''#A8D47A'', ''#FFFFFF'', ''#ABABAB'', ''#000000'']),
    (''autosexual'',
      [''#99D9EA'', ''#7F7F7F'']),
    (''intergender'',
      [''#900DC2'', ''#900DC2'', ''#FFE54F'', ''#900DC2'', ''#900DC2'']),
    (''greygender'',
      [''#B3B3B3'', ''#B3B3B3'', ''#FFFFFF'', ''#062383'', ''#062383'', ''#FFFFFF'',
       ''#535353'', ''#535353'']),
    (''akiosexual'',
      [''#F9485E'', ''#FEA06A'', ''#FEF44C'', ''#FFFFFF'', ''#000000'']),
    (''transmasculine'',
      [''#FF8ABD'', ''#CDF5FE'', ''#9AEBFF'', ''#74DFFF'', ''#9AEBFF'', ''#CDF5FE'',
       ''#FF8ABD'']),
    (''demifaun'',
      [''#7F7F7F'', ''#7F7F7F'', ''#C6C6C6'', ''#C6C6C6'', ''#FCC688'', ''#FFF19C'',
       ''#FFFFFF'', ''#8DE0D5'', ''#9682EC'', ''#C6C6C6'', ''#C6C6C6'', ''#7F7F7F'',
       ''#7F7F7F'']),
    (''neutrois'',
      [''#FFFFFF'', ''#1F9F00'', ''#000000'']),
    (''biromantic alt 2'',
      [''#8869A5'', ''#D8A7D8'', ''#FFFFFF'', ''#FDB18D'', ''#151638'']),
    (''biromantic alt 2'',
      [''#740194'', ''#AEB1AA'', ''#FFFFFF'', ''#AEB1AA'', ''#740194'']),
    (''autoromantic'',
      [''#99D9EA'', ''#99D9EA'', ''#99D9EA'', ''#99D9EA'', ''#99D9EA'', ''#000000'',
       ''#3DA542'', ''#3DA542'', ''#000000'', ''#7F7F7F'', ''#7F7F7F'', ''#7F7F7F'',
       ''#7F7F7F'', ''#7F7F7F'']),
    (''boyflux alt 2'',
      [''#E48AE4'', ''#9A81B4'', ''#55BFAB'', ''#FFFFFF'', ''#A8A8A8'', ''#81D5EF'',
       ''#81D5EF'', ''#81D5EF'', ''#81D5EF'', ''#81D5EF'', ''#69ABE5'', ''#69ABE5'',
       ''#69ABE5'', ''#69ABE5'', ''#69ABE5'', ''#69ABE5'', ''#69ABE5'', ''#69ABE5'',
       ''#69ABE5'', ''#69ABE5'', ''#5276D4'', ''#5276D4'', ''#5276D4'', ''#5276D4'',
       ''#5276D4'', ''#5276D4'', ''#5276D4'', ''#5276D4'', ''#5276D4'', ''#5276D4'']),
    (''neopronoun'',
      [''#BCEC64'', ''#BCEC64'', ''#BCEC64'', ''#FFFFFF'', ''#FFFFFF'', ''#38077A'',
       ''#38077A'', ''#38077A'']),
    (''gynesexual'',
      [''#F5A9B8'', ''#8F3F2B'', ''#5B943A'']),
    (''spectrasexual'',
      [''#F079FF'', ''#8879FF'', ''#FFFFFF'', ''#79FFF0'', ''#79B5FF'']),
    (''black transgender'',
      [''#5BCEFA'', ''#F5A9B8'', ''#000000'', ''#F5A9B8'', ''#5BCEFA'']),
    (''aftgender'',
      [''#6B30D5'', ''#6B30D5'', ''#6B30D5'', ''#6B30D5'', ''#FEEDAE'', ''#FDACE5'']),
    (''paragirl'',
      [''#9D9D9D'', ''#9D9D9D'', ''#9D9D9D'', ''#FFFFFF'', ''#FFFFFF'', ''#FFFFFF'',
       ''#FDCDBA'', ''#FDCDBA'', ''#FDCDBA'', ''#FE8C5d'', ''#FE8C5d'', ''#FE8C5d'',
       ''#F42D45'', ''#FE8C5d'', ''#FE8C5d'', ''#FE8C5d'', ''#FDCDBA'', ''#FDCDBA'',
       ''#FDCDBA'', ''#FFFFFF'', ''#FFFFFF'', ''#FFFFFF'', ''#9D9D9D'', ''#9D9D9D'',
       ''#9D9D9D'']),
    (''demiandrogyne'',
      [''#7E7E7E'', ''#C5C5C5'', ''#F92E8E'', ''#5721AB'', ''#09C3ED'', ''#C5C5C5'',
       ''#7E7E7E'']),
    (''gay male'',
      [''#078D70'', ''#26CEAA'', ''#98E8C1'', ''#FFFFFF'', ''#7BADE2'', ''#5049CC'',
       ''#3D1A78'']),
    (''bicurious'',
      [''#F347F8'', ''#F347F8'', ''#F787FA'', ''#FDC6FD'', ''#FFFFFF'', ''#FFFFFF'',
       ''#C6E0FD'', ''#76B5fA'', ''#2D8CF7'', ''#2D8CF7'']),
    (''paraboy'',
      [''#9D9D9D'', ''#9D9D9D'', ''#9D9D9D'', ''#FFFFFF'', ''#FFFFFF'', ''#FFFFFF'',
       ''#E9CFEE'', ''#E9CFEE'', ''#E9CFEE'', ''#C78BD8'', ''#C78BD8'', ''#C78BD8'',
       ''#1104AF'', ''#C78BD8'', ''#C78BD8'', ''#C78BD8'', ''#E9CFEE'', ''#E9CFEE'',
       ''#E9CFEE'', ''#FFFFFF'', ''#FFFFFF'', ''#FFFFFF'', ''#9D9D9D'', ''#9D9D9D'',
       ''#9D9D9D'']),
    (''faunflux'',
      [''#C1DEEB'', ''#29669C'', ''#97CEFF'', ''#FFFFFF'', ''#C6C2C2'', ''#5D5D5D'',
       ''#989898'']),
    (''bear brotherhood'',
      [''#613704'', ''#613704'', ''#D46300'', ''#D46300'', ''#000000'', ''#FDDC62'',
       ''#FDDC62'', ''#FDE5B7'', ''#FDE5B7'', ''#FFFFFF'', ''#FFFFFF'', ''#545454'',
       ''#545454'', ''#000000'', ''#000000'']),
    (''hijra'',
      [''#FECCE7'', ''#FECCE7'', ''#FECCE7'', ''#FFFFFF'', ''#C00100'', ''#FFFFFF'',
       ''#B9E1FB'', ''#B9E1FB'', ''#B9E1FB'']),
    (''trigender'',
      [''#FF95C5'', ''#9581FF'', ''#67D966'', ''#9581FF'', ''#FF95C5'']),
    (''demiromantic'',
      [''#56A644'', ''#56A644'', ''#A8D242'', ''#A8D242'', ''#000000'', ''#FDF979'',
       ''#FDF979'', ''#A9A8A8'', ''#A9A8A8'']),
    (''cupiosexual'',
      [''#A0A0A0'', ''#C8BFE6'', ''#FFFFFF'', ''#FFB3DA'']),
    (''aliagender'',
      [''#8DC73F'', ''#8BAD5A'', ''#899374'', ''#877A8E'', ''#8560A9'', ''#A4678C'',
       ''#C26E70'', ''#E07654'', ''#FF7D37'']),
    (''paragirl alt'',
      [''#BCBCBC'', ''#BCBCBC'', ''#BCBCBC'', ''#BCBCBC'', ''#FFFFFF'', ''#FFFFFF'',
       ''#EED0F3'', ''#EED0F3'', ''#EED0F3'', ''#EED0F3'', ''#F32DEA'', ''#000000'',
       ''#F32DEA'', ''#EED0F3'', ''#EED0F3'', ''#EED0F3'', ''#EED0F3'', ''#FFFFFF'',
       ''#FFFFFF'', ''#BCBCBC'', ''#BCBCBC'', ''#BCBCBC'', ''#BCBCBC'']),
    (''genderfaun'',
      [''#FCD689'', ''#FFF09B'', ''#FAF9CD'', ''#FFFFFF'', ''#8EDED9'', ''#8CACDE'',
       ''#9782EC'']),
    (''polygender'',
      [''#000000'', ''#939393'', ''#ED94C5'', ''#F5ED81'', ''#64BBE6'']),
    (''biromantic alt'',
      [''#D60270'', ''#D60270'', ''#D60270'', ''#D60270'', ''#D60270'', ''#D60270'',
       ''#D60270'', ''#FFFFFF'', ''#FFFFFF'', ''#FFFFFF'', ''#9B4F96'', ''#9B4F96'',
       ''#FFFFFF'', ''#000000'', ''#FFFFFF'', ''#9B4F96'', ''#9B4F96'', ''#FFFFFF'',
       ''#FFFFFF'', ''#FFFFFF'', ''#0038A8'', ''#0038A8'', ''#0038A8'', ''#0038A8'',
       ''#0038A8'', ''#0038A8'', ''#0038A8''])
   ]"

text \<open>
  A dictionary display evaluates its entries from first to last and stores each one under
  its key, so a key written twice keeps the value stored last. An exception raised by a
  constructor call ends the evaluation.
\<close>

fun build_presets ::
  "(string \<Rightarrow> error + RGB) \<Rightarrow> (string \<times> string list) list \<Rightarrow> (string \<rightharpoonup> ColorProfile)
     \<Rightarrow> error + (string \<rightharpoonup> ColorProfile)" where
  "build_presets from_hex [] d = Inr d"
| "build_presets from_hex ((k, cs) # rest) d =
     (case init from_hex (Strs cs) of
        Inl e \<Rightarrow> Inl e
      | Inr p \<Rightarrow> build_presets from_hex rest (d(k \<mapsto> p)))"

definition PRESETS :: "(string \<Rightarrow> error + RGB) \<Rightarrow> error + (string \<rightharpoonup> ColorProfile)" where
  "PRESETS from_hex = build_presets from_hex PRESETS_literal Map.empty"

section \<open>Functions of \<open>color_util\<close>, for running the model\<close>

text \<open>
  Modelled from the spec: \<open>RGB.from_hex\<close> is missing from the sources. The spec's
  \<open>parse\<close> accepts \<open>#RRGGBB\<close>, the hash sign optional and the hex digits in either case,
  and fails with \<open>ColorParseError\<close> when what follows the optional hash sign is not exactly
  six hexadecimal digits.
\<close>

definition hex_digit :: "char \<Rightarrow> nat option" where
  "hex_digit c =
     (let n = (of_char c :: nat)
      in if 48 \<le> n \<and> n \<le> 57 then Some (n - 48)
         else if 65 \<le> n \<and> n \<le> 70 then Some (n - 55)
         else if 97 \<le> n \<and> n \<le> 102 then Some (n - 87)
         else None)"

definition from_hex :: "string \<Rightarrow> error + RGB" where
  "from_hex hex =
     (let digits = (case hex of [] \<Rightarrow> [] | c # cs \<Rightarrow> if c = CHR ''#'' then cs else c # cs)
      in case map hex_digit digits of
           [Some r1, Some r2, Some g1, Some g2, Some b1, Some b2] \<Rightarrow>
             Inr (RGB (16 * r1 + r2) (16 * g1 + g2) (16 * b1 + b2))
         | _ \<Rightarrow> Inl ColorParseError)"

text \<open>
  Modelled from the spec: \<open>RGB.to_ansi_rgb\<close> is missing from the sources. The spec's
  \<open>toEscapeSequence\<close> returns \<open>ESC[38;2;R;G;Bm\<close> for the foreground and \<open>ESC[48;2;R;G;Bm\<close>
  for the background, the components written in decimal.
\<close>

fun decimal :: "nat \<Rightarrow> string" where
  "decimal n =
     (if n < 10 then [char_of (48 + n)]
      else decimal (n div 10) @ [char_of (48 + n mod 10)])"

declare decimal.simps [simp del]

definition to_ansi_rgb :: "RGB \<Rightarrow> bool \<Rightarrow> str" where
  "to_ansi_rgb c foreground =
     (case c of RGB r g b \<Rightarrow>
        str_of ([CHR 0x1B] @ ''['' @ (if foreground then ''38'' else ''48'') @ '';2;''
                @ decimal r @ '';'' @ decimal g @ '';'' @ decimal b @ ''m''))"

section \<open>The distribution and the colorizer as the specification words them\<close>

text \<open>
  One step of the border growth: add 1 to the weights at \<open>i\<close> and at \<open>N - 1 - i\<close>.
\<close>

definition spec_pair_step :: "nat \<Rightarrow> nat \<Rightarrow> int list \<Rightarrow> int list" where
  "spec_pair_step n i w =
     (let w1 = w[i := w ! i + 1] in w1[n - 1 - i := w1 ! (n - 1 - i) + 1])"

text \<open>
  Every weight is \<open>length // N\<close>; an odd \<open>length mod N\<close> adds 1 at index \<open>N // 2\<close>; with
  the even remainder \<open>e\<close> that is left, 1 is added at \<open>i\<close> and \<open>N - 1 - i\<close> for each \<open>i\<close>
  from 0 up to \<open>e / 2 - 1\<close>.
\<close>

definition spec_weights :: "nat \<Rightarrow> int \<Rightarrow> int list" where
  "spec_weights n length' =
     (let base = replicate n (length' div int n);
          extras = nat (length' mod int n);
          w1 = (if odd extras then base[n div 2 := base ! (n div 2) + 1] else base);
          e = (if odd extras then extras - 1 else extras)
      in fold (spec_pair_step n) [0..<e div 2] w1)"

text \<open>\<open>colors[i]\<close> repeated \<open>weights[i]\<close> times, concatenated in palette order.\<close>

definition spec_expand :: "RGB list \<Rightarrow> int list \<Rightarrow> RGB list" where
  "spec_expand cs ws = concat (map (\<lambda>i. replicate (nat (ws ! i)) (cs ! i)) [0..<length cs])"

definition distribute_spec :: "RGB list \<Rightarrow> int \<Rightarrow> RGB list" where
  "distribute_spec cs length' = spec_expand cs (spec_weights (length cs) length')"

text \<open>
  What the colorizer emits for the character at index \<open>i\<close>: in space-only mode a character
  that is not a space is emitted uncolored, after the reset sequence when the character
  before it is a space; any other character follows the escape sequence of its color.
\<close>

definition colorize_piece ::
  "(RGB \<Rightarrow> bool \<Rightarrow> str) \<Rightarrow> RGB list \<Rightarrow> str \<Rightarrow> bool \<Rightarrow> bool \<Rightarrow> nat \<Rightarrow> str" where
  "colorize_piece to_esc colorSeq text' target spaceOnly i =
     (if spaceOnly \<and> text' ! i \<noteq> space
      then (if i > 0 \<and> text' ! (i - 1) = space then reset else []) @ [text' ! i]
      else to_esc (colorSeq ! i) target @ [text' ! i])"

definition colorize_spec ::
  "(RGB \<Rightarrow> bool \<Rightarrow> str) \<Rightarrow> RGB list \<Rightarrow> str \<Rightarrow> bool \<Rightarrow> bool \<Rightarrow> str" where
  "colorize_spec to_esc colorSeq text' target spaceOnly =
     concat (map (colorize_piece to_esc colorSeq text' target spaceOnly) [0..<length text'])
       @ reset"

section \<open>Palettes of the worked cases\<close>

text \<open>Palettes of one, two, three and five colors, built from \<open>RGB\<close> values.\<close>

definition palette1 :: ColorProfile where
  "palette1 = \<lparr>raw = None, colors = [RGB 229 0 0], spacing = Equal\<rparr>"

definition palette2 :: ColorProfile where
  "palette2 = \<lparr>raw = None, colors = [RGB 153 217 234, RGB 127 127 127], spacing = Equal\<rparr>"

definition palette3 :: ColorProfile where
  "palette3 =
     \<lparr>raw = None, colors = [RGB 214 2 112, RGB 155 79 150, RGB 0 56 168], spacing = Equal\<rparr>"

definition palette5 :: ColorProfile where
  "palette5 =
     \<lparr>raw = None,
      colors = [RGB 85 205 253, RGB 246 170 183, RGB 255 255 255, RGB 246 170 183, RGB 85 205 253],
      spacing = Equal\<rparr>"

section \<open>Indexing and the border loop\<close>

lemma py_index_nonneg: "i < n \<Longrightarrow> py_index n (int i) = Inr i"
  by (simp add: py_index_def)

lemma py_index_neg: "i < n \<Longrightarrow> py_index n (- (int i + 1)) = Inr (n - 1 - i)"
proof -
  assume lt: "i < n"
  have neg: "- (int i + 1) < 0" by simp
  have eq: "- (int i + 1) + int n = int (n - 1 - i)" using lt by simp
  show ?thesis
    unfolding py_index_def Let_def if_P [OF neg] eq using lt by simp
qed

lemma length_spec_pair_step [simp]: "length (spec_pair_step n i w) = length w"
  by (simp add: spec_pair_step_def Let_def)

lemma border_body_in_range:
  assumes "bn < length w"
  shows "border_body (e, w, int bn) = Inr (e - 2, spec_pair_step (length w) bn w, int bn + 1)"
proof -
  have a: "iadd_item w (int bn) 1 = Inr (w[bn := w ! bn + 1])"
    using assms by (simp add: iadd_item_def py_index_nonneg)
  have "bn < length (w[bn := w ! bn + 1])" using assms by simp
  then have "py_index (length (w[bn := w ! bn + 1])) (- (int bn + 1))
               = Inr (length (w[bn := w ! bn + 1]) - 1 - bn)"
    by (rule py_index_neg)
  then have b: "iadd_item (w[bn := w ! bn + 1]) (- (int bn + 1)) 1
                  = Inr (spec_pair_step (length w) bn w)"
    unfolding iadd_item_def by (simp add: spec_pair_step_def Let_def)
  show ?thesis
    unfolding border_body_def prod.case a sum.case b ..
qed

lemma border_loop_fold:
  "bn + k \<le> length w \<Longrightarrow>
   border_loop (2 * int k, w, int bn) =
     Inr (0, fold (spec_pair_step (length w)) [bn..<bn + k] w, int (bn + k))"
proof (induction k arbitrary: w bn)
  case 0
  then show ?case by (simp add: border_loop.simps)
next
  case (Suc k)
  let ?w = "spec_pair_step (length w) bn w"
  from Suc.prems have lt: "bn < length w" by simp
  have body: "border_body (2 * int (Suc k), w, int bn) = Inr (2 * int k, ?w, int (Suc bn))"
    using border_body_in_range [OF lt, of "2 * int (Suc k)"] by (simp add: algebra_simps)
  have pos: "fst (2 * int (Suc k), w, int bn) > 0" by simp
  have "border_loop (2 * int (Suc k), w, int bn) = border_loop (2 * int k, ?w, int (Suc bn))"
    by (subst border_loop.simps) (simp only: pos if_True body sum.case)
  also have "\<dots> = Inr (0, fold (spec_pair_step (length ?w)) [Suc bn..<Suc bn + k] ?w,
                       int (Suc bn + k))"
    using Suc.prems by (intro Suc.IH) simp
  also have "\<dots> = Inr (0, fold (spec_pair_step (length w)) [bn..<bn + Suc k] w,
                       int (bn + Suc k))"
  proof -
    have "[bn..<bn + Suc k] = bn # [Suc bn..<Suc bn + k]"
      by (simp add: upt_conv_Cons)
    then show ?thesis by simp
  qed
  finally show ?case .
qed

lemma length_fold_pair_step [simp]: "length (fold (spec_pair_step n) is w) = length w"
  by (induction "is" arbitrary: w) simp_all

lemma length_spec_weights [simp]: "length (spec_weights n len) = n"
  by (simp add: spec_weights_def Let_def)

lemma border_entry_spec:
  fixes len :: int
  assumes "colors p \<noteq> []"
  defines "n \<equiv> length (colors p)"
  defines "x \<equiv> nat (len mod int (length (colors p)))"
  shows "border_entry p len =
           Inr (2 * int ((if odd x then x - 1 else x) div 2),
                (if odd x then (replicate n (len div int n))[n div 2 := replicate n (len div int n) ! (n div 2) + 1]
                 else replicate n (len div int n)), 0)"
proof -
  have n: "0 < n" using assms by simp
  have x: "int x = len mod int n" using n by (simp add: x_def n_def)
  have c: "int n div 2 = int (n div 2)" by simp
  have lt: "n div 2 < n" using n by simp
  show ?thesis
  proof (cases "odd x")
    case True
    then have "int x mod 2 = 1" by presburger
    then have m: "(len mod int n) mod 2 = 1" unfolding x .
    have "int x - 1 = 2 * int ((x - 1) div 2)" using True by presburger
    then have e: "len mod int n - 1 = 2 * int ((x - 1) div 2)" unfolding x .
    show ?thesis using True n lt
      by (simp add: border_entry_def Let_def n_def [symmetric] m e iadd_item_def c py_index_nonneg)
  next
    case False
    then have "int x mod 2 \<noteq> 1" by presburger
    then have m: "(len mod int n) mod 2 \<noteq> 1" unfolding x .
    have "int x = 2 * int (x div 2)" using False by presburger
    then have e: "len mod int n = 2 * int (x div 2)" unfolding x .
    show ?thesis using False n
      by (simp add: border_entry_def Let_def n_def [symmetric] m e [symmetric])
  qed
qed

lemma with_length_weights_spec:
  assumes "colors p \<noteq> []"
  shows "with_length_weights p len = Inr (spec_weights (length (colors p)) len)"
proof -
  let ?n = "length (colors p)"
  let ?x = "nat (len mod int ?n)"
  let ?k = "(if odd ?x then ?x - 1 else ?x) div 2"
  let ?w = "if odd ?x then (replicate ?n (len div int ?n))[?n div 2 := replicate ?n (len div int ?n) ! (?n div 2) + 1]
            else replicate ?n (len div int ?n)"
  have n: "0 < ?n" using assms by simp
  have "len mod int ?n < int ?n" using n by simp
  then have k: "0 + ?k \<le> length ?w" by (auto simp: nat_less_iff)
  have len: "length ?w = ?n" by simp
  have loop: "border_loop (2 * int ?k, ?w, int 0) = Inr (0, fold (spec_pair_step (length ?w)) [0..<0 + ?k] ?w, int (0 + ?k))"
    using k by (rule border_loop_fold)
  have "with_length_weights p len = Inr (fold (spec_pair_step ?n) [0..<?k] ?w)"
    unfolding with_length_weights_def border_entry_spec [OF assms] using loop
    by (simp only: len sum.case fst_conv snd_conv add_0 of_nat_0)
  also have "fold (spec_pair_step ?n) [0..<?k] ?w = spec_weights ?n len"
    by (simp add: spec_weights_def Let_def)
  finally show ?thesis .
qed

section \<open>The weights in closed form\<close>

lemma sum_list_incr:
  "i < length xs \<Longrightarrow> sum_list (xs[i := xs ! i + (1::int)]) = sum_list xs + 1"
proof (induction xs arbitrary: i)
  case Nil
  then show ?case by simp
next
  case (Cons x xs)
  show ?case
  proof (cases i)
    case 0
    then show ?thesis by simp
  next
    case (Suc j)
    with Cons.prems have "j < length xs" by simp
    then have "sum_list (xs[j := xs ! j + 1]) = sum_list xs + 1" by (rule Cons.IH)
    with Suc show ?thesis by simp
  qed
qed

lemma sum_list_pair_step:
  assumes "i < n" "length w = n"
  shows "sum_list (spec_pair_step n i w) = sum_list w + 2"
proof -
  let ?w1 = "w[i := w ! i + 1]"
  have a: "sum_list ?w1 = sum_list w + 1" using assms by (intro sum_list_incr) simp
  have "n - 1 - i < length ?w1" using assms by simp
  then have b: "sum_list (?w1[n - 1 - i := ?w1 ! (n - 1 - i) + 1]) = sum_list ?w1 + 1"
    by (rule sum_list_incr)
  show ?thesis unfolding spec_pair_step_def Let_def b a by simp
qed

lemma sum_list_fold_pair_step:
  "k \<le> n \<Longrightarrow> length w = n \<Longrightarrow>
   sum_list (fold (spec_pair_step n) [0..<k] w) = sum_list w + 2 * int k"
proof (induction k)
  case 0
  then show ?case by simp
next
  case (Suc k)
  let ?w = "fold (spec_pair_step n) [0..<k] w"
  have "fold (spec_pair_step n) [0..<Suc k] w = spec_pair_step n k ?w" by simp
  moreover have "sum_list (spec_pair_step n k ?w) = sum_list ?w + 2"
    using Suc.prems by (intro sum_list_pair_step) simp_all
  moreover have "sum_list ?w = sum_list w + 2 * int k"
    using Suc.prems by (intro Suc.IH) simp_all
  ultimately show ?case by simp
qed

lemma nth_pair_step:
  assumes "length w = n" "2 * i + 2 \<le> n" "j < n"
  shows "spec_pair_step n i w ! j = w ! j + (if j = i \<or> j = n - 1 - i then 1 else 0)"
proof -
  have ne: "i \<noteq> n - 1 - i" and i: "i < length w" and m: "n - 1 - i < length w"
    using assms by simp_all
  consider "j = i" | "j = n - 1 - i" | "j \<noteq> i" "j \<noteq> n - 1 - i" by blast
  then show ?thesis
  proof cases
    case 1
    then show ?thesis using ne i m by (simp add: spec_pair_step_def Let_def)
  next
    case 2
    then show ?thesis using ne i m by (simp add: spec_pair_step_def Let_def)
  next
    case 3
    then show ?thesis by (simp add: spec_pair_step_def Let_def)
  qed
qed

lemma pair_step_mirror: "i < (n::nat) \<Longrightarrow> j < n \<Longrightarrow> (j = n - 1 - i) = (j + i + 1 = n)"
  by arith

lemma nth_fold_pair_step:
  "length w = n \<Longrightarrow> 2 * k \<le> n \<Longrightarrow> j < n \<Longrightarrow>
   fold (spec_pair_step n) [0..<k] w ! j = w ! j + (if j < k \<or> n \<le> j + k then 1 else 0)"
proof (induction k)
  case 0
  then show ?case by simp
next
  case (Suc k)
  let ?w = "fold (spec_pair_step n) [0..<k] w"
  have len: "length ?w = n" using Suc.prems(1) by simp
  have k2: "2 * k + 2 \<le> n" using Suc.prems(2) by simp
  have kn: "k < n" using k2 by simp
  have a: "fold (spec_pair_step n) [0..<Suc k] w = spec_pair_step n k ?w"
    by simp
  have b: "spec_pair_step n k ?w ! j = ?w ! j + (if j = k \<or> j = n - 1 - k then 1 else 0)"
    using len k2 Suc.prems(3) by (rule nth_pair_step)
  have k2': "2 * k \<le> n" using k2 by simp
  have c: "?w ! j = w ! j + (if j < k \<or> n \<le> j + k then 1 else 0)"
    using Suc.prems(1) k2' Suc.prems(3) by (rule Suc.IH)
  have m: "(j = n - 1 - k) = (j + k + 1 = n)"
    using kn Suc.prems(3) by (rule pair_step_mirror)
  have d: "(if j < k \<or> n \<le> j + k then 1 else 0) + (if j = k \<or> j + k + 1 = n then 1 else 0)
             = (if j < Suc k \<or> n \<le> j + Suc k then 1 else (0::int))"
    using k2 by auto
  have "fold (spec_pair_step n) [0..<Suc k] w ! j
          = w ! j + ((if j < k \<or> n \<le> j + k then 1 else 0)
                     + (if j = k \<or> j + k + 1 = n then 1 else 0))"
    unfolding a b c m by simp
  then show ?case unfolding d .
qed

lemma spec_weights_unfold:
  "0 < n \<Longrightarrow> spec_weights n len =
     fold (spec_pair_step n) [0..<nat (len mod int n) div 2]
       (if odd (nat (len mod int n))
        then (replicate n (len div int n))[n div 2 := len div int n + 1]
        else replicate n (len div int n))"
proof -
  define x where "x = nat (len mod int n)"
  have k: "(if odd x then x - 1 else x) div 2 = x div 2" by presburger
  have b: "n div 2 < n \<Longrightarrow> replicate n (len div int n) ! (n div 2) = len div int n" by simp
  assume "0 < n"
  then have "n div 2 < n" by simp
  then show ?thesis
    unfolding spec_weights_def Let_def x_def [symmetric] k by simp
qed

text \<open>The weight at each index, in closed form.\<close>

lemma nth_spec_weights:
  fixes len :: int
  assumes "0 < n" "j < n"
  shows "spec_weights n len ! j =
           len div int n + (if odd (nat (len mod int n)) \<and> j = n div 2 then 1 else 0)
             + (if j < nat (len mod int n) div 2 \<or> n \<le> j + nat (len mod int n) div 2 then 1 else 0)"
proof -
  define x where "x = nat (len mod int n)"
  define q where "q = len div int n"
  define w1 where "w1 = (if odd x then (replicate n q)[n div 2 := q + 1] else replicate n q)"
  have xn: "x < n" using assms(1) by (simp add: x_def nat_less_iff)
  have len1: "length w1 = n" by (simp add: w1_def)
  have k: "2 * (x div 2) \<le> n" using xn by simp
  have "spec_weights n len ! j = fold (spec_pair_step n) [0..<x div 2] w1 ! j"
    unfolding spec_weights_unfold [OF assms(1)] x_def q_def w1_def ..
  also have "\<dots> = w1 ! j + (if j < x div 2 \<or> n \<le> j + x div 2 then 1 else 0)"
    using len1 k assms(2) by (rule nth_fold_pair_step)
  also have "w1 ! j = q + (if odd x \<and> j = n div 2 then 1 else 0)"
    using assms by (simp add: w1_def nth_list_update)
  finally show ?thesis unfolding x_def q_def .
qed

lemma sum_list_spec_weights:
  fixes len :: int
  assumes "0 < n"
  shows "sum_list (spec_weights n len) = len"
proof -
  define x where "x = nat (len mod int n)"
  define q where "q = len div int n"
  define w1 where "w1 = (if odd x then (replicate n q)[n div 2 := q + 1] else replicate n q)"
  have xn: "x < n" using assms by (simp add: x_def nat_less_iff)
  have x: "int x = len mod int n" using assms by (simp add: x_def)
  have len1: "length w1 = n" by (simp add: w1_def)
  have lt: "n div 2 < length (replicate n q)" using assms by simp
  have "sum_list ((replicate n q)[n div 2 := replicate n q ! (n div 2) + 1]) = sum_list (replicate n q) + 1"
    using lt by (rule sum_list_incr)
  then have "sum_list ((replicate n q)[n div 2 := q + 1]) = int n * q + 1"
    using assms by (simp add: sum_list_replicate)
  then have s1: "sum_list w1 = int n * q + (if odd x then 1 else 0)"
    by (simp add: w1_def sum_list_replicate)
  have par: "(if odd x then 1 else 0) + 2 * int (x div 2) = int x"
    by presburger
  have kn: "x div 2 \<le> n" using xn by simp
  have "sum_list (spec_weights n len) = sum_list (fold (spec_pair_step n) [0..<x div 2] w1)"
    unfolding spec_weights_unfold [OF assms(1)] x_def q_def w1_def ..
  also have "\<dots> = sum_list w1 + 2 * int (x div 2)"
    using kn len1 by (rule sum_list_fold_pair_step)
  also have "\<dots> = int n * q + int x"
    unfolding s1 using par by linarith
  also have "\<dots> = len" unfolding x q_def by simp
  finally show ?thesis .
qed

section \<open>Running the model on concrete input\<close>

lemmas run_simps =
  with_length_weights_def border_entry_def iadd_item_def py_index_def border_loop.simps
  border_body_def Let_def

section \<open>The claims about the weights\<close>

text \<open>
  C9. For a palette of N >= 1 colors and a length >= 0, every weight that \<open>with_length\<close>
  computes is \<open>length // N\<close> or \<open>length // N + 1\<close>: no index is raised twice.
\<close>

theorem weights_base_or_one_more:
  assumes "colors p \<noteq> []" and "0 \<le> length'"
  shows "\<exists>weights. with_length_weights p length' = Inr weights
           \<and> length weights = length (colors p)
           \<and> (\<forall>j < length (colors p).
                 weights ! j = length' div int (length (colors p))
                 \<or> weights ! j = length' div int (length (colors p)) + 1)"
proof -
  define n where "n = length (colors p)"
  define x where "x = nat (length' mod int n)"
  have n: "0 < n" using assms(1) by (simp add: n_def)
  have xn: "x < n" using n by (simp add: x_def nat_less_iff)
  have w: "with_length_weights p length' = Inr (spec_weights n length')"
    unfolding n_def using assms(1) by (rule with_length_weights_spec)
  have "spec_weights n length' ! j = length' div int n
          \<or> spec_weights n length' ! j = length' div int n + 1" if j: "j < n" for j
  proof -
    have excl: "\<not> ((odd x \<and> j = n div 2) \<and> (j < x div 2 \<or> n \<le> j + x div 2))"
      using xn by presburger
    show ?thesis
      unfolding nth_spec_weights [OF n j] x_def [symmetric] using excl by auto
  qed
  then show ?thesis
    unfolding w n_def [symmetric] by simp
qed

theorem weights_base_or_one_more_witness:
  "colors palette3 \<noteq> [] \<and> (0::int) \<le> 11
   \<and> with_length_weights palette3 11 = Inr [4, 3, 4]
   \<and> ([4, 3, 4] :: int list) ! 0 = 11 div 3 + 1
   \<and> ([4, 3, 4] :: int list) ! 1 = 11 div 3
   \<and> ([4, 3, 4] :: int list) ! 2 = 11 div 3 + 1"
proof -
  have c: "colors palette3 \<noteq> []" by (simp add: palette3_def)
  have l: "(0::int) \<le> 11" by simp
  have e: "with_length_weights palette3 11 = Inr [4, 3, 4]"
    by (simp add: palette3_def run_simps)
  have n: "length (colors palette3) = 3" by (simp add: palette3_def)
  from weights_base_or_one_more [OF c l] show ?thesis
    unfolding e n using c l by simp
qed

section \<open>Expanding weights into colors\<close>

lemma getitem_in_range: "i < length xs \<Longrightarrow> getitem xs (int i) = Inr (xs ! i)"
  by (simp add: getitem_def py_index_nonneg)

lemma with_weights_from_expand:
  "i + length ws \<le> length cs \<Longrightarrow>
   with_weights_from cs i ws =
     Inr (concat (map (\<lambda>j. replicate (nat (ws ! j)) (cs ! (i + j))) [0..<length ws]))"
proof (induction ws arbitrary: i)
  case Nil
  show ?case by simp
next
  case (Cons w ws)
  from Cons.prems have i: "i < length cs" and r: "Suc i + length ws \<le> length cs"
    by simp_all
  have u: "[0..<length (w # ws)] = 0 # map Suc [0..<length ws]"
  proof -
    have "[0..<Suc (length ws)] = 0 # [Suc 0..<Suc (length ws)]"
      by (rule upt_conv_Cons) simp
    also have "[Suc 0..<Suc (length ws)] = map Suc [0..<length ws]"
      by (rule map_Suc_upt [symmetric])
    finally show ?thesis by simp
  qed
  show ?case
    unfolding with_weights_from.simps getitem_in_range [OF i] Cons.IH [OF r] u
    by (simp add: comp_def)
qed

lemma with_weights_spec:
  "length ws = length (colors p) \<Longrightarrow> with_weights p ws = Inr (spec_expand (colors p) ws)"
  unfolding with_weights_def spec_expand_def
  using with_weights_from_expand [of 0 ws "colors p"] by simp

lemma sum_list_map_nat:
  "list_all (\<lambda>w. 0 \<le> w) ws \<Longrightarrow> int (sum_list (map nat ws)) = sum_list ws"
  by (induction ws) simp_all

lemma length_spec_expand:
  assumes "length ws = length cs" and "list_all (\<lambda>w. 0 \<le> w) ws"
  shows "int (length (spec_expand cs ws)) = sum_list ws"
proof -
  have "map (\<lambda>i. nat (ws ! i)) [0..<length ws] = map nat ws"
    by (rule nth_equalityI) simp_all
  then have "length (spec_expand cs ws) = sum_list (map nat ws)"
    unfolding spec_expand_def assms(1) [symmetric]
    by (simp add: length_concat comp_def)
  then show ?thesis using sum_list_map_nat [OF assms(2)] by simp
qed

lemma spec_weights_nonneg:
  assumes "0 < n" and "0 \<le> len"
  shows "list_all (\<lambda>w. 0 \<le> w) (spec_weights n len)"
proof -
  have q: "0 \<le> len div int n" using assms by (simp add: pos_imp_zdiv_nonneg_iff)
  have "0 \<le> spec_weights n len ! j" if "j < n" for j
    unfolding nth_spec_weights [OF assms(1) that] using q by simp
  then show ?thesis by (simp add: list_all_length)
qed

lemma with_length_spec:
  assumes "colors p \<noteq> []"
  shows "with_length p len = Inr (distribute_spec (colors p) len)"
  unfolding with_length_def with_length_weights_spec [OF assms] distribute_spec_def
  by (simp add: with_weights_spec)

section \<open>Length and shape of the distribution\<close>

text \<open>
  C1. For a palette of N >= 1 colors and a length >= 0, \<open>with_length\<close> returns exactly
  \<open>length\<close> colors; and for a weight vector of N non-negative integers, \<open>with_weights\<close>
  returns as many colors as the weights sum to.
\<close>

theorem with_length_and_with_weights_lengths:
  "(colors p \<noteq> [] \<and> 0 \<le> length'
      \<longrightarrow> (\<exists>cs. with_length p length' = Inr cs \<and> int (length cs) = length'))
   \<and> (length weights = length (colors p) \<and> list_all (\<lambda>w. 0 \<le> w) weights
      \<longrightarrow> (\<exists>cs. with_weights p weights = Inr cs \<and> int (length cs) = sum_list weights))"
proof (intro conjI impI)
  assume a: "colors p \<noteq> [] \<and> 0 \<le> length'"
  then have n: "0 < length (colors p)" by simp
  have "int (length (distribute_spec (colors p) length')) = length'"
    unfolding distribute_spec_def
    using length_spec_expand [of "spec_weights (length (colors p)) length'" "colors p"]
      spec_weights_nonneg [OF n] a sum_list_spec_weights [OF n, of length']
    by simp
  with a show "\<exists>cs. with_length p length' = Inr cs \<and> int (length cs) = length'"
    by (simp add: with_length_spec)
next
  assume b: "length weights = length (colors p) \<and> list_all (\<lambda>w. 0 \<le> w) weights"
  then show "\<exists>cs. with_weights p weights = Inr cs \<and> int (length cs) = sum_list weights"
    by (simp add: with_weights_spec length_spec_expand)
qed

theorem with_length_and_with_weights_lengths_witness:
  "colors palette3 \<noteq> [] \<and> (0::int) \<le> 10
   \<and> (\<exists>cs. with_length palette3 10 = Inr cs \<and> int (length cs) = 10)
   \<and> length [3, 4, 3 :: int] = length (colors palette3)
   \<and> list_all (\<lambda>w. 0 \<le> w) [3, 4, 3 :: int]
   \<and> (\<exists>cs. with_weights palette3 [3, 4, 3] = Inr cs \<and> int (length cs) = sum_list [3, 4, 3])"
  using with_length_and_with_weights_lengths [of palette3 10 "[3, 4, 3]"]
  by (simp add: palette3_def)

text \<open>
  C2. For a palette of N >= 1 colors and a length >= 0, \<open>with_length\<close> returns what the
  specification describes: every weight set to \<open>length // N\<close>, one more at index \<open>N // 2\<close>
  when \<open>length mod N\<close> is odd, one more at \<open>i\<close> and \<open>N - 1 - i\<close> for each \<open>i\<close> below half
  of the even remainder, and then \<open>colors[i]\<close> repeated \<open>weights[i]\<close> times in palette
  order.
\<close>

theorem with_length_refines_distribute_spec:
  assumes "colors p \<noteq> []" and "0 \<le> length'"
  shows "with_length p length' = Inr (distribute_spec (colors p) length')"
  using assms(1) by (rule with_length_spec)

theorem with_length_refines_distribute_spec_witness:
  "colors palette3 \<noteq> [] \<and> (0::int) \<le> 11
   \<and> with_length palette3 11 = Inr (distribute_spec (colors palette3) 11)
   \<and> distribute_spec (colors palette3) 11 =
       replicate 4 (RGB 214 2 112) @ replicate 3 (RGB 155 79 150) @ replicate 4 (RGB 0 56 168)"
proof -
  have c: "colors palette3 \<noteq> []" by (simp add: palette3_def)
  have l: "(0::int) \<le> 11" by simp
  have e: "distribute_spec (colors palette3) 11 =
       replicate 4 (RGB 214 2 112) @ replicate 3 (RGB 155 79 150) @ replicate 4 (RGB 0 56 168)"
    by code_simp
  from with_length_refines_distribute_spec [OF c l] c l e show ?thesis by simp
qed

section \<open>The states of the border loop\<close>

lemma border_iter_fold:
  "bn + k \<le> length w \<Longrightarrow>
   border_iter m (2 * int k, w, int bn) =
     Inr (2 * int (k - min m k),
          fold (spec_pair_step (length w)) [bn..<bn + min m k] w, int (bn + min m k))"
proof (induction m arbitrary: k w bn)
  case 0
  show ?case by simp
next
  case (Suc m)
  show ?case
  proof (cases k)
    case 0
    then show ?thesis by simp
  next
    case (Suc k')
    let ?w = "spec_pair_step (length w) bn w"
    from Suc.prems Suc have lt: "bn < length w" and r: "Suc bn + k' \<le> length ?w"
      by simp_all
    have body: "border_body (2 * int (Suc k'), w, int bn) = Inr (2 * int k', ?w, int (Suc bn))"
      using border_body_in_range [OF lt, of "2 * int (Suc k')"] by (simp add: algebra_simps)
    have pos: "fst (2 * int (Suc k'), w, int bn) > 0" by simp
    have "border_iter (Suc m) (2 * int (Suc k'), w, int bn)
            = border_iter m (2 * int k', ?w, int (Suc bn))"
      unfolding border_iter.simps by (simp only: pos if_True body sum.case)
    also have "\<dots> = Inr (2 * int (k' - min m k'),
          fold (spec_pair_step (length ?w)) [Suc bn..<Suc bn + min m k'] ?w,
          int (Suc bn + min m k'))"
      using r by (rule Suc.IH)
    also have "\<dots> = Inr (2 * int (Suc k' - min (Suc m) (Suc k')),
          fold (spec_pair_step (length w)) [bn..<bn + min (Suc m) (Suc k')] w,
          int (bn + min (Suc m) (Suc k')))"
    proof -
      have "[bn..<bn + Suc (min m k')] = bn # [Suc bn..<bn + Suc (min m k')]"
        by (rule upt_conv_Cons) simp
      then show ?thesis by simp
    qed
    finally show ?thesis unfolding Suc .
  qed
qed

text \<open>Once the cut-off loop has left the loop, the loop itself returns that state.\<close>

lemma border_iter_loop:
  "border_iter m s = Inr t \<Longrightarrow> fst t \<le> 0 \<Longrightarrow> border_loop s = Inr t"
proof (induction m arbitrary: s)
  case 0
  then show ?case by (simp add: border_loop.simps)
next
  case (Suc m)
  show ?case
  proof (cases "fst s > 0")
    case False
    with Suc.prems show ?thesis by (simp add: border_loop.simps)
  next
    case True
    with Suc.prems(1) obtain s' where b: "border_body s = Inr s'" and i: "border_iter m s' = Inr t"
      by (auto split: sum.splits)
    from i Suc.prems(2) have "border_loop s' = Inr t" by (rule Suc.IH)
    with True b show ?thesis by (subst border_loop.simps) simp
  qed
qed

text \<open>
  C5. For a palette of N >= 1 colors and a length >= 0, the border loop of \<open>with_length\<close>
  ends with \<open>extras\<close> exactly 0, \<open>extras\<close> is never negative at the loop head, and
  whenever the body is about to run, \<open>border_i\<close> and its mirror \<open>N - 1 - border_i\<close> (the
  index that \<open>-(border_i + 1)\<close> denotes) are in range with \<open>border_i <= N - 1 - border_i\<close>.
\<close>

theorem border_loop_ends_at_zero:
  assumes "colors p \<noteq> []" and "0 \<le> length'"
  shows "\<exists>s. border_entry p length' = Inr s
           \<and> (\<exists>w b. border_loop s = Inr (0, w, b))
           \<and> (\<forall>m. \<exists>e w b. border_iter m s = Inr (e, w, b) \<and> 0 \<le> e
                 \<and> (0 < e \<longrightarrow> 0 \<le> b \<and> b \<le> int (length (colors p)) - 1 - b
                       \<and> py_index (length w) b = Inr (nat b)
                       \<and> py_index (length w) (- (b + 1))
                           = Inr (nat (int (length (colors p)) - 1 - b))))"
proof -
  define n where "n = length (colors p)"
  define x where "x = nat (length' mod int n)"
  define k where "k = (if odd x then x - 1 else x) div 2"
  define w1 where "w1 = (if odd x
      then (replicate n (length' div int n))[n div 2 := replicate n (length' div int n) ! (n div 2) + 1]
      else replicate n (length' div int n))"
  have n: "0 < n" using assms(1) by (simp add: n_def)
  have xn: "x < n" using n by (simp add: x_def nat_less_iff)
  have kn: "2 * k + 1 \<le> n" using xn unfolding k_def by presburger
  have len: "length w1 = n" by (simp add: w1_def)
  have fit: "0 + k \<le> length w1" using kn len by simp
  have entry: "border_entry p length' = Inr (2 * int k, w1, int 0)"
    using border_entry_spec [OF assms(1), of length']
    by (simp add: n_def x_def k_def w1_def)
  have loop: "border_loop (2 * int k, w1, int 0)
                = Inr (0, fold (spec_pair_step (length w1)) [0..<0 + k] w1, int (0 + k))"
    using fit by (rule border_loop_fold)
  have iter: "border_iter m (2 * int k, w1, int 0)
                = Inr (2 * int (k - min m k),
                       fold (spec_pair_step (length w1)) [0..<0 + min m k] w1,
                       int (0 + min m k))" for m
    using fit by (rule border_iter_fold)
  have head: "0 < 2 * int (k - min m k) \<longrightarrow>
                0 \<le> int (0 + min m k) \<and> int (0 + min m k) \<le> int n - 1 - int (0 + min m k)
                \<and> py_index n (int (0 + min m k)) = Inr (nat (int (0 + min m k)))
                \<and> py_index n (- (int (0 + min m k) + 1))
                    = Inr (nat (int n - 1 - int (0 + min m k)))" for m
  proof
    assume "0 < 2 * int (k - min m k)"
    then have lt: "min m k < k" by simp
    with kn have b: "2 * min m k + 3 \<le> n" by simp
    then have r: "0 + min m k < n" by simp
    have m: "n - 1 - (0 + min m k) = nat (int n - 1 - int (0 + min m k))"
      using r by simp
    show "0 \<le> int (0 + min m k) \<and> int (0 + min m k) \<le> int n - 1 - int (0 + min m k)
            \<and> py_index n (int (0 + min m k)) = Inr (nat (int (0 + min m k)))
            \<and> py_index n (- (int (0 + min m k) + 1))
                = Inr (nat (int n - 1 - int (0 + min m k)))"
      using b py_index_nonneg [OF r] py_index_neg [OF r] unfolding m by simp
  qed
  show ?thesis
    unfolding entry n_def [symmetric]
    by (intro exI conjI allI, rule refl, rule loop, rule iter, simp, simp only: length_fold_pair_step len, rule head)
qed

theorem border_loop_ends_at_zero_witness:
  "colors palette5 \<noteq> [] \<and> (0::int) \<le> 9
   \<and> border_entry palette5 9 = Inr (4, [1, 1, 1, 1, 1], 0)
   \<and> border_iter 1 (4, [1, 1, 1, 1, 1], 0) = Inr (2, [2, 1, 1, 1, 2], 1)
   \<and> (1::int) \<le> int (length (colors palette5)) - 1 - 1
   \<and> border_loop (4, [1, 1, 1, 1, 1], 0) = Inr (0, [2, 2, 1, 2, 2], 2)"
proof -
  have c: "colors palette5 \<noteq> []" by (simp add: palette5_def)
  have l: "(0::int) \<le> 9" by simp
  have e: "border_entry palette5 9 = Inr (4, [1, 1, 1, 1, 1], 0)"
    by (simp add: palette5_def border_entry_def Let_def)
  have i: "border_iter 1 (4, [1, 1, 1, 1, 1], 0) = Inr (2, [2, 1, 1, 1, 2], 1)"
    by (simp add: border_body_def iadd_item_def py_index_def Let_def)
  have b: "border_loop (4, [1, 1, 1, 1, 1], 0) = Inr (0, [2, 2, 1, 2, 2], 2)"
    by (simp add: border_loop.simps border_body_def iadd_item_def py_index_def Let_def)
  from border_loop_ends_at_zero [OF c l] obtain s where
    s: "border_entry palette5 9 = Inr s" and
    h: "\<forall>m. \<exists>e w b. border_iter m s = Inr (e, w, b) \<and> 0 \<le> e
          \<and> (0 < e \<longrightarrow> 0 \<le> b \<and> b \<le> int (length (colors palette5)) - 1 - b
                \<and> py_index (length w) b = Inr (nat b)
                \<and> py_index (length w) (- (b + 1))
                    = Inr (nat (int (length (colors palette5)) - 1 - b)))"
    by blast
  from s e have s4: "s = (4, [1, 1, 1, 1, 1], 0)" by simp
  from h [rule_format, of 1] have "(1::int) \<le> int (length (colors palette5)) - 1 - 1"
    unfolding s4 i by simp
  with c l e i b show ?thesis by simp
qed

section \<open>Symmetry of the weights\<close>

text \<open>
  C3, as stated: the weight vector of \<open>with_length\<close> is a palindrome. It is not: with two
  colors and length 1 the single unit goes to index \<open>N // 2 = 1\<close>, whose mirror is index 0.
\<close>

theorem weights_palindrome_counterexample:
  "with_length_weights palette2 1 = Inr [0, 1]
   \<and> length (colors palette2) = 2
   \<and> ([0, 1] :: int list) ! 0 \<noteq> [0, 1] ! (2 - 1 - 0)"
  by (simp add: palette2_def run_simps)

text \<open>
  C3, amended. For a palette of N >= 1 colors and a length >= 0: when N is odd or
  \<open>length mod N\<close> is even, \<open>weights[i] == weights[N - 1 - i]\<close> for every index; when N is
  even and \<open>length mod N\<close> is odd this holds for every index but the two middle ones,
  and \<open>weights[N // 2] == weights[N // 2 - 1] + 1\<close>.
\<close>

theorem weights_palindrome_amended:
  assumes "colors p \<noteq> []" and "0 \<le> length'"
  shows "\<exists>weights. with_length_weights p length' = Inr weights
           \<and> length weights = length (colors p)
           \<and> (\<forall>i < length (colors p).
                 odd (length (colors p)) \<or> even (length' mod int (length (colors p)))
                   \<or> (i \<noteq> length (colors p) div 2 \<and> i + 1 \<noteq> length (colors p) div 2)
                 \<longrightarrow> weights ! i = weights ! (length (colors p) - 1 - i))
           \<and> (even (length (colors p)) \<and> odd (length' mod int (length (colors p)))
                 \<longrightarrow> weights ! (length (colors p) div 2)
                       = weights ! (length (colors p) div 2 - 1) + 1)"
proof -
  define n where "n = length (colors p)"
  define x where "x = nat (length' mod int n)"
  define k where "k = x div 2"
  define q where "q = length' div int n"
  have n: "0 < n" using assms(1) by (simp add: n_def)
  have xn: "x < n" using n by (simp add: x_def nat_less_iff)
  have par: "even (length' mod int n) = even x"
    using n by (simp add: x_def even_nat_iff)
  have w: "with_length_weights p length' = Inr (spec_weights n length')"
    unfolding n_def using assms(1) by (rule with_length_weights_spec)
  have nth: "spec_weights n length' ! j =
               q + (if odd x \<and> j = n div 2 then 1 else 0)
                 + (if j < k \<or> n \<le> j + k then 1 else 0)" if "j < n" for j
    using nth_spec_weights [OF n that, of length'] by (simp add: x_def k_def q_def)
  have sym: "spec_weights n length' ! i = spec_weights n length' ! (n - 1 - i)"
    if i: "i < n" and c: "odd n \<or> even x \<or> (i \<noteq> n div 2 \<and> i + 1 \<noteq> n div 2)" for i
  proof -
    define m where "m = n - 1 - i"
    have m: "i + m + 1 = n" using i by (simp add: m_def)
    then have mn: "m < n" by simp
    have border: "(m < k \<or> n \<le> m + k) = (i < k \<or> n \<le> i + k)"
      using m by auto
    define h where "h = n div 2"
    have "n = 2 * h + 1 \<or> n = 2 * h"
      unfolding h_def by presburger
    then consider (ev) "even x" | (on) "odd x" "n = 2 * h + 1" | (en) "odd x" "n = 2 * h"
      by blast
    then have center: "(odd x \<and> m = n div 2) = (odd x \<and> i = n div 2)"
    proof cases
      case ev
      then show ?thesis by simp
    next
      case on
      with m show ?thesis unfolding h_def [symmetric] by auto
    next
      case en
      then have "even n" by simp
      with c en(1) have "i \<noteq> h \<and> i + 1 \<noteq> h" unfolding h_def by simp
      with m en(2) show ?thesis unfolding h_def [symmetric] by auto
    qed
    show ?thesis
      unfolding m_def [symmetric] nth [OF i] nth [OF mn] border center ..
  qed
  have mid: "spec_weights n length' ! (n div 2) = spec_weights n length' ! (n div 2 - 1) + 1"
    if c: "even n \<and> odd x"
  proof -
    have h: "n div 2 < n" and h1: "n div 2 - 1 < n" using n by simp_all
    have two: "2 * (n div 2) = n" using c by simp
    have pos: "0 < n div 2" using two n by linarith
    have "odd x" using c by simp
    then have kk: "2 * k + 1 \<le> x" unfolding k_def by presburger
    have a: "\<not> (n div 2 < k \<or> n \<le> n div 2 + k)" using kk xn two by linarith
    have b: "\<not> (n div 2 - 1 < k \<or> n \<le> n div 2 - 1 + k)" using kk xn two pos by linarith
    have d: "n div 2 - 1 \<noteq> n div 2" using pos by simp
    show ?thesis
      unfolding nth [OF h] nth [OF h1] using a b d c by simp
  qed
  show ?thesis
    unfolding w n_def [symmetric] par using sym mid by simp
qed

theorem weights_palindrome_amended_witness:
  "colors palette5 \<noteq> [] \<and> (0::int) \<le> 8
   \<and> with_length_weights palette5 8 = Inr [2, 1, 2, 1, 2]
   \<and> ([2, 1, 2, 1, 2] :: int list) ! 0 = [2, 1, 2, 1, 2] ! (5 - 1 - 0)
   \<and> ([2, 1, 2, 1, 2] :: int list) ! 1 = [2, 1, 2, 1, 2] ! (5 - 1 - 1)
   \<and> colors palette2 \<noteq> [] \<and> (0::int) \<le> 1
   \<and> even (length (colors palette2)) \<and> odd ((1::int) mod int (length (colors palette2)))
   \<and> with_length_weights palette2 1 = Inr [0, 1]
   \<and> ([0, 1] :: int list) ! (2 div 2) = [0, 1] ! (2 div 2 - 1) + 1"
proof -
  have c5: "colors palette5 \<noteq> []" and c2: "colors palette2 \<noteq> []"
    by (simp_all add: palette5_def palette2_def)
  have l8: "(0::int) \<le> 8" and l1: "(0::int) \<le> 1" by simp_all
  have e5: "with_length_weights palette5 8 = Inr [2, 1, 2, 1, 2]"
    by (simp add: palette5_def run_simps)
  have e2: "with_length_weights palette2 1 = Inr [0, 1]"
    by (simp add: palette2_def run_simps)
  have n5: "length (colors palette5) = 5" and n2: "length (colors palette2) = 2"
    by (simp_all add: palette5_def palette2_def)
  from weights_palindrome_amended [OF c5 l8] weights_palindrome_amended [OF c2 l1]
  show ?thesis
    unfolding e5 e2 n5 n2 using c5 c2 by simp
qed

section \<open>Empty text and empty palette\<close>

text \<open>
  C6. For a palette of N >= 1 colors, whatever the foreground selector and the space-only
  flag, \<open>color_text\<close> of the empty string returns exactly the reset sequence
  \<open>ESC[0m\<close>, and \<open>with_length(0)\<close> returns the empty list; neither raises.
\<close>

theorem empty_text_gives_reset:
  assumes "colors p \<noteq> []"
  shows "color_text to_esc p [] foreground space_only = Inr [27, 91, 48, 109]
         \<and> with_length p 0 = Inr []"
proof -
  have n: "0 < length (colors p)" using assms by simp
  have z: "list_all (\<lambda>w. 0 \<le> w) (spec_weights (length (colors p)) 0)"
    using n by (rule spec_weights_nonneg) simp
  have "length (spec_weights (length (colors p)) 0) = length (colors p)" by simp
  then have "int (length (spec_expand (colors p) (spec_weights (length (colors p)) 0)))
               = sum_list (spec_weights (length (colors p)) 0)"
    using z by (rule length_spec_expand)
  also have "\<dots> = 0" using n by (rule sum_list_spec_weights)
  finally have e: "distribute_spec (colors p) 0 = []"
    by (simp add: distribute_spec_def)
  have w: "with_length p 0 = Inr []"
    using with_length_spec [OF assms, of 0] e by simp
  have r: "reset = [27, 91, 48, 109]" by (simp add: reset_def str_of_def)
  show ?thesis
    using w r by (simp add: color_text_def)
qed

theorem empty_text_gives_reset_witness:
  "colors palette3 \<noteq> []
   \<and> color_text to_ansi_rgb palette3 [] True False = Inr [27, 91, 48, 109]
   \<and> color_text to_ansi_rgb palette3 [] False True = Inr [27, 91, 48, 109]
   \<and> with_length palette3 0 = Inr []"
proof -
  have c: "colors palette3 \<noteq> []" by (simp add: palette3_def)
  from empty_text_gives_reset [OF c, of to_ansi_rgb True False]
    empty_text_gives_reset [OF c, of to_ansi_rgb False True] c
  show ?thesis by simp
qed

text \<open>
  C7. Constructing a \<open>ColorProfile\<close> from an empty list fails at construction time (the
  read of \<open>colors[0]\<close> raises \<open>IndexError\<close>), so every profile that the constructor
  returns has N >= 1 and \<open>with_length\<close> never divides by zero on it.
\<close>

theorem init_rejects_empty_list:
  "init parse (Strs []) = Inl IndexError
   \<and> init parse (RGBs []) = Inl IndexError
   \<and> (init parse arg = Inr p
        \<longrightarrow> colors p \<noteq> [] \<and> with_length p length' \<noteq> Inl ZeroDivisionError)"
proof -
  have len: "from_hex_all parse cs = Inr xs \<Longrightarrow> length xs = length cs" for cs xs
    by (induction cs arbitrary: xs) (auto split: sum.splits)
  have ne: "colors p \<noteq> []" if "init parse arg = Inr p"
  proof (cases arg)
    case (Strs cs)
    show ?thesis
    proof (cases cs)
      case Nil
      with Strs that show ?thesis by simp
    next
      case (Cons c cs')
      with Strs that obtain xs where x: "from_hex_all parse (c # cs') = Inr xs"
        and p: "p = \<lparr>raw = Some (c # cs'), colors = xs, spacing = Equal\<rparr>"
        by (auto split: sum.splits)
      from len [OF x] p show ?thesis by auto
    qed
  next
    case (RGBs xs)
    with that show ?thesis by (cases xs) auto
  qed
  have "with_length p length' \<noteq> Inl ZeroDivisionError" if "colors p \<noteq> []"
    using with_length_spec [OF that, of length'] by simp
  with ne show ?thesis by simp
qed

theorem init_rejects_empty_list_witness:
  "init from_hex (Strs []) = Inl IndexError
   \<and> init from_hex (RGBs []) = Inl IndexError
   \<and> init from_hex (Strs [''#D60270'', ''#9B4F96'', ''#0038A8''])
       = Inr \<lparr>raw = Some [''#D60270'', ''#9B4F96'', ''#0038A8''],
              colors = colors palette3, spacing = Equal\<rparr>
   \<and> colors palette3 \<noteq> []
   \<and> with_length palette3 7 \<noteq> Inl ZeroDivisionError
   \<and> with_length \<lparr>raw = None, colors = [], spacing = Equal\<rparr> 7 = Inl ZeroDivisionError"
proof -
  have i: "init from_hex (Strs [''#D60270'', ''#9B4F96'', ''#0038A8''])
       = Inr \<lparr>raw = Some [''#D60270'', ''#9B4F96'', ''#0038A8''],
              colors = colors palette3, spacing = Equal\<rparr>"
    by (simp add: palette3_def from_hex_def hex_digit_def)
  have i': "init from_hex (RGBs (colors palette3)) = Inr palette3"
    by (simp add: palette3_def)
  have z: "with_length \<lparr>raw = None, colors = [], spacing = Equal\<rparr> 7 = Inl ZeroDivisionError"
    by (simp add: with_length_def with_length_weights_def border_entry_def)
  from init_rejects_empty_list [of from_hex "RGBs (colors palette3)" palette3 7] i i' z
  show ?thesis by simp
qed

section \<open>The colorizer\<close>

lemma drop_Cons_nth:
  assumes "t # ts = drop i txt"
  shows "i < length txt" and "t = txt ! i" and "ts = drop (Suc i) txt"
proof -
  show i: "i < length txt"
  proof (rule ccontr)
    assume "\<not> i < length txt"
    then have "drop i txt = []" by simp
    with assms show False by simp
  qed
  from Cons_nth_drop_Suc [OF i] assms have "t # ts = txt ! i # drop (Suc i) txt"
    by simp
  then show "t = txt ! i" and "ts = drop (Suc i) txt"
    by simp_all
qed

lemma color_text_loop_pieces:
  "ts = drop i txt \<Longrightarrow> length cs = length txt \<Longrightarrow>
   color_text_loop to_esc cs txt foreground space_only i ts result =
     Inr (result @ concat (map (colorize_piece to_esc cs txt foreground space_only)
                             [i..<length txt]))"
proof (induction ts arbitrary: i result)
  case Nil
  then have "length txt \<le> i" by simp
  then show ?case by simp
next
  case (Cons t ts)
  from drop_Cons_nth [OF Cons.prems(1)]
  have i: "i < length txt" and t: "t = txt ! i" and ts: "ts = drop (Suc i) txt" .
  have u: "[i..<length txt] = i # [Suc i..<length txt]"
    using i by (rule upt_conv_Cons)
  have ih: "color_text_loop to_esc cs txt foreground space_only (Suc i) ts r =
     Inr (r @ concat (map (colorize_piece to_esc cs txt foreground space_only)
                        [Suc i..<length txt]))" for r
    using ts Cons.prems(2) by (rule Cons.IH)
  have c: "getitem cs (int i) = Inr (cs ! i)"
    using i Cons.prems(2) by (simp add: getitem_in_range)
  show ?case
  proof (cases "space_only \<and> t \<noteq> space")
    case False
    then have p: "colorize_piece to_esc cs txt foreground space_only i
                    = to_esc (cs ! i) foreground @ [t]"
      using t by (auto simp: colorize_piece_def)
    have "color_text_loop to_esc cs txt foreground space_only i (t # ts) result
            = color_text_loop to_esc cs txt foreground space_only (Suc i) ts
                (result @ to_esc (cs ! i) foreground @ [t])"
      by (simp only: color_text_loop.simps if_not_P [OF False] c sum.case)
    also have "\<dots> = Inr ((result @ to_esc (cs ! i) foreground @ [t])
                   @ concat (map (colorize_piece to_esc cs txt foreground space_only)
                               [Suc i..<length txt]))"
      by (rule ih)
    finally show ?thesis unfolding u by (simp add: p)
  next
    case True
    show ?thesis
    proof (cases "i > 0")
      case False
      then have p: "colorize_piece to_esc cs txt foreground space_only i = [t]"
        using True t by (simp add: colorize_piece_def)
      have "color_text_loop to_esc cs txt foreground space_only i (t # ts) result
              = color_text_loop to_esc cs txt foreground space_only (Suc i) ts (result @ [t])"
        by (simp only: color_text_loop.simps if_P [OF True] if_not_P [OF False] sum.case)
      also have "\<dots> = Inr ((result @ [t])
                     @ concat (map (colorize_piece to_esc cs txt foreground space_only)
                                 [Suc i..<length txt]))"
        by (rule ih)
      finally show ?thesis unfolding u by (simp add: p)
    next
      case pos: True
      have eq: "int i - 1 = int (i - 1)" using pos by linarith
      have "i - 1 < length txt" using i by linarith
      then have "getitem txt (int (i - 1)) = Inr (txt ! (i - 1))"
        by (rule getitem_in_range)
      then have g: "getitem txt (int i - 1) = Inr (txt ! (i - 1))"
        unfolding eq .
      have p: "colorize_piece to_esc cs txt foreground space_only i
                 = (if txt ! (i - 1) = space then reset else []) @ [t]"
        using True pos t by (simp add: colorize_piece_def)
      have "color_text_loop to_esc cs txt foreground space_only i (t # ts) result
              = color_text_loop to_esc cs txt foreground space_only (Suc i) ts
                  ((if txt ! (i - 1) = space then result @ reset else result) @ [t])"
        by (simp only: color_text_loop.simps if_P [OF True] if_P [OF pos] g sum.case)
      also have "\<dots> = Inr (((if txt ! (i - 1) = space then result @ reset else result) @ [t])
                     @ concat (map (colorize_piece to_esc cs txt foreground space_only)
                                 [Suc i..<length txt]))"
        by (rule ih)
      finally show ?thesis unfolding u by (simp add: p)
    qed
  qed
qed

lemma length_with_length:
  assumes "colors p \<noteq> []" and "0 \<le> len"
  shows "int (length (distribute_spec (colors p) len)) = len"
proof -
  have n: "0 < length (colors p)" using assms(1) by simp
  have "int (length (spec_expand (colors p) (spec_weights (length (colors p)) len)))
          = sum_list (spec_weights (length (colors p)) len)"
    using spec_weights_nonneg [OF n assms(2)] by (intro length_spec_expand) simp_all
  then show ?thesis
    unfolding distribute_spec_def sum_list_spec_weights [OF n] .
qed

lemma color_text_spec:
  assumes "colors p \<noteq> []"
  shows "color_text to_esc p txt foreground space_only =
           Inr (colorize_spec to_esc (distribute_spec (colors p) (int (length txt))) txt
                  foreground space_only)"
proof -
  let ?cs = "distribute_spec (colors p) (int (length txt))"
  have "int (length ?cs) = int (length txt)"
    using assms by (rule length_with_length) simp
  then have len: "length ?cs = length txt" by simp
  have "color_text_loop to_esc ?cs txt foreground space_only 0 txt [] =
     Inr ([] @ concat (map (colorize_piece to_esc ?cs txt foreground space_only)
                         [0..<length txt]))"
    using len by (intro color_text_loop_pieces) simp_all
  then show ?thesis
    unfolding color_text_def with_length_spec [OF assms] colorize_spec_def by simp
qed

text \<open>
  C4. For a palette of N >= 1 colors, any text and any foreground selector, \<open>color_text\<close>
  emits for each index what the specification says: in space-only mode a character that
  is not a space goes out without an escape sequence, after the reset sequence exactly
  when \<open>i > 0\<close> and the character before it is a space; a space (and every character
  when space-only is off) follows the escape sequence of the color at its index in
  \<open>with_length(len(txt))\<close>; the reset sequence ends the result.
\<close>

theorem color_text_refines_colorize_spec:
  assumes "colors p \<noteq> []"
  shows "\<exists>colorSeq. with_length p (int (length txt)) = Inr colorSeq
           \<and> length colorSeq = length txt
           \<and> color_text to_esc p txt foreground space_only =
               Inr (colorize_spec to_esc colorSeq txt foreground space_only)"
proof -
  have "int (length (distribute_spec (colors p) (int (length txt)))) = int (length txt)"
    using assms by (rule length_with_length) simp
  then show ?thesis
    using with_length_spec [OF assms] color_text_spec [OF assms] by simp
qed

theorem color_text_refines_colorize_spec_witness:
  "colors palette1 \<noteq> []
   \<and> with_length palette1 (int (length (str_of ''a b''))) = Inr (replicate 3 (RGB 229 0 0))
   \<and> color_text to_ansi_rgb palette1 (str_of ''a b'') True True =
       Inr (str_of ''a'' @ [27] @ str_of ''[38;2;229;0;0m '' @ [27] @ str_of ''[0mb''
            @ [27] @ str_of ''[0m'')
   \<and> colorize_spec to_ansi_rgb (replicate 3 (RGB 229 0 0)) (str_of ''a b'') True True =
       str_of ''a'' @ [27] @ str_of ''[38;2;229;0;0m '' @ [27] @ str_of ''[0mb''
       @ [27] @ str_of ''[0m''
   \<and> color_text to_ansi_rgb palette1 (str_of ''a b'') False False =
       Inr ([27] @ str_of ''[48;2;229;0;0ma'' @ [27] @ str_of ''[48;2;229;0;0m ''
            @ [27] @ str_of ''[48;2;229;0;0mb'' @ [27] @ str_of ''[0m'')"
proof -
  have c: "colors palette1 \<noteq> []" by (simp add: palette1_def)
  have w: "with_length palette1 (int (length (str_of ''a b''))) = Inr (replicate 3 (RGB 229 0 0))"
    by code_simp
  have s: "colorize_spec to_ansi_rgb (replicate 3 (RGB 229 0 0)) (str_of ''a b'') True True =
       str_of ''a'' @ [27] @ str_of ''[38;2;229;0;0m '' @ [27] @ str_of ''[0mb''
       @ [27] @ str_of ''[0m''"
    by code_simp
  have b: "color_text to_ansi_rgb palette1 (str_of ''a b'') False False =
       Inr ([27] @ str_of ''[48;2;229;0;0ma'' @ [27] @ str_of ''[48;2;229;0;0m ''
            @ [27] @ str_of ''[48;2;229;0;0mb'' @ [27] @ str_of ''[0m'')"
    by code_simp
  from color_text_refines_colorize_spec [OF c, of "str_of ''a b''" to_ansi_rgb True True]
  have "color_text to_ansi_rgb palette1 (str_of ''a b'') True True =
       Inr (colorize_spec to_ansi_rgb (replicate 3 (RGB 229 0 0)) (str_of ''a b'') True True)"
    unfolding w by simp
  with c w s b show ?thesis by simp
qed

text \<open>
  C10. In space-only mode the test is \<open>t != ' '\<close>: only the character U+0020 counts as a
  space. For a palette of N >= 1 colors and any text, a character other than U+0020 (a
  tab, a newline, a no-break space) goes out without an escape sequence, at most after
  the reset sequence, and exactly the characters equal to U+0020 follow the escape
  sequence of their color; so a text without U+0020 comes back unchanged, followed by
  the reset sequence.
\<close>

theorem space_only_colors_only_u0020:
  assumes "colors p \<noteq> []"
  shows "\<exists>colorSeq. with_length p (int (length txt)) = Inr colorSeq
           \<and> color_text to_esc p txt foreground True =
               Inr (concat (map (\<lambda>i. if txt ! i = 32
                                      then to_esc (colorSeq ! i) foreground @ [32]
                                      else (if 0 < i \<and> txt ! (i - 1) = 32
                                            then [27, 91, 48, 109] else []) @ [txt ! i])
                              [0..<length txt])
                    @ [27, 91, 48, 109])
           \<and> (list_all (\<lambda>c. c \<noteq> 32) txt
                \<longrightarrow> color_text to_esc p txt foreground True = Inr (txt @ [27, 91, 48, 109]))"
proof -
  let ?cs = "distribute_spec (colors p) (int (length txt))"
  let ?piece = "\<lambda>i. if txt ! i = 32
                      then to_esc (?cs ! i) foreground @ [32]
                      else (if 0 < i \<and> txt ! (i - 1) = 32
                            then [27, 91, 48, 109] else []) @ [txt ! i]"
  have r: "reset = [27, 91, 48, 109]" by (simp add: reset_def str_of_def)
  have sp: "space = 32" by (simp add: space_def)
  have piece: "colorize_piece to_esc ?cs txt foreground True = ?piece"
    by (rule ext) (simp add: colorize_piece_def r sp)
  have ct: "color_text to_esc p txt foreground True =
              Inr (concat (map ?piece [0..<length txt]) @ [27, 91, 48, 109])"
    unfolding color_text_spec [OF assms] colorize_spec_def piece r ..
  have plain: "concat (map ?piece [0..<length txt]) = txt" if "list_all (\<lambda>c. c \<noteq> 32) txt"
  proof -
    from that have ne: "txt ! i \<noteq> 32" if "i < length txt" for i
      using that by (simp add: list_all_length)
    have "map ?piece [0..<length txt] = map (\<lambda>i. [txt ! i]) [0..<length txt]"
    proof (rule map_cong [OF refl])
      fix i assume "i \<in> set [0..<length txt]"
      then have i: "i < length txt" by simp
      then have "i - 1 < length txt" by linarith
      with i show "?piece i = [txt ! i]" using ne by simp
    qed
    also have "concat \<dots> = map (\<lambda>i. txt ! i) [0..<length txt]"
      by (induction "[0..<length txt]") simp_all
    also have "\<dots> = txt" by (rule map_nth)
    finally show ?thesis .
  qed
  show ?thesis
    using with_length_spec [OF assms, of "int (length txt)"] ct plain by simp
qed

theorem space_only_colors_only_u0020_witness:
  "colors palette1 \<noteq> []
   \<and> list_all (\<lambda>c. c \<noteq> 32) [9, 10, 160, 12288, 120 :: nat]
   \<and> color_text to_ansi_rgb palette1 [9, 10, 160, 12288, 120] True True
       = Inr ([9, 10, 160, 12288, 120] @ [27, 91, 48, 109])
   \<and> color_text to_ansi_rgb palette1 [9, 32, 10] True True
       = Inr ([9] @ to_ansi_rgb (RGB 229 0 0) True @ [32] @ [27, 91, 48, 109] @ [10]
              @ [27, 91, 48, 109])"
proof -
  have c: "colors palette1 \<noteq> []" by (simp add: palette1_def)
  have a: "list_all (\<lambda>c. c \<noteq> 32) [9, 10, 160, 12288, 120 :: nat]" by simp
  have b: "color_text to_ansi_rgb palette1 [9, 32, 10] True True
       = Inr ([9] @ to_ansi_rgb (RGB 229 0 0) True @ [32] @ [27, 91, 48, 109] @ [10]
              @ [27, 91, 48, 109])"
    by code_simp
  from space_only_colors_only_u0020 [OF c, of "[9, 10, 160, 12288, 120]" to_ansi_rgb True] a
  have "color_text to_ansi_rgb palette1 [9, 10, 160, 12288, 120] True True
       = Inr ([9, 10, 160, 12288, 120] @ [27, 91, 48, 109])"
    by blast
  with c a b show ?thesis by simp
qed

section \<open>The preset table\<close>

lemma build_presets_lookup:
  "build_presets parse items d = Inr d' \<Longrightarrow>
   d' k = (case map_of (rev items) k of
             None \<Rightarrow> d k
           | Some cs \<Rightarrow> (case init parse (Strs cs) of Inl e \<Rightarrow> None | Inr p \<Rightarrow> Some p))"
proof (induction items arbitrary: d)
  case Nil
  then show ?case by simp
next
  case (Cons item items)
  obtain k0 cs0 where item: "item = (k0, cs0)" by (cases item)
  from Cons.prems obtain p0 where p0: "init parse (Strs cs0) = Inr p0"
    and rest: "build_presets parse items (d(k0 \<mapsto> p0)) = Inr d'"
    unfolding item by (auto split: sum.splits)
  have m: "map_of (rev (item # items)) k =
             (case map_of (rev items) k of
                None \<Rightarrow> (if k = k0 then Some cs0 else None) | Some cs \<Rightarrow> Some cs)"
    unfolding item by (auto simp: map_add_def split: option.splits)
  show ?case
    unfolding m Cons.IH [OF rest] using p0 by (simp split: option.splits)
qed

lemma build_presets_succeeds:
  "list_all (\<lambda>item. \<not> isl (init parse (Strs (snd item)))) items \<Longrightarrow>
   \<exists>d'. build_presets parse items d = Inr d'"
proof (induction items arbitrary: d)
  case Nil
  show ?case by simp
next
  case (Cons item items)
  obtain k0 cs0 where item: "item = (k0, cs0)" by (cases item)
  from Cons.prems obtain p0 where p0: "init parse (Strs cs0) = Inr p0"
    unfolding item by (cases "init parse (Strs cs0)") simp_all
  from Cons.prems have "list_all (\<lambda>item. \<not> isl (init parse (Strs (snd item)))) items"
    by simp
  then have "\<exists>d'. build_presets parse items (d(k0 \<mapsto> p0)) = Inr d'"
    by (rule Cons.IH)
  then show ?case unfolding item by (simp add: p0)
qed

lemma presets_keys:
  "count_list (map fst PRESETS_literal) ''biromantic alt 2'' = 2"
  "distinct (remove1 ''biromantic alt 2'' (map fst PRESETS_literal))"
  "length PRESETS_literal = 43"
  by code_simp+

lemma presets_entries:
  "PRESETS_literal ! 18 =
     (''biromantic alt 2'', [''#8869A5'', ''#D8A7D8'', ''#FFFFFF'', ''#FDB18D'', ''#151638''])"
  "PRESETS_literal ! 19 =
     (''biromantic alt 2'', [''#740194'', ''#AEB1AA'', ''#FFFFFF'', ''#AEB1AA'', ''#740194''])"
  "map_of (rev PRESETS_literal) ''biromantic alt 2'' =
     Some [''#740194'', ''#AEB1AA'', ''#FFFFFF'', ''#AEB1AA'', ''#740194'']"
  by code_simp+

lemma presets_all_parse:
  "list_all (\<lambda>item. \<not> isl (init from_hex (Strs (snd item)))) PRESETS_literal"
  by code_simp

lemma build_presets_fails:
  "(k, cs) \<in> set items \<Longrightarrow> isl (init parse (Strs cs)) \<Longrightarrow>
   build_presets parse items d0 \<noteq> Inr d1"
proof (induction items arbitrary: d0)
  case Nil
  then show ?case by simp
next
  case (Cons item items)
  obtain k0 cs0 where item: "item = (k0, cs0)" by (cases item)
  show ?case
  proof (cases "init parse (Strs cs0)")
    case (Inl e)
    then show ?thesis unfolding item by simp
  next
    case (Inr p0)
    with Cons.prems have "(k, cs) \<in> set items" unfolding item by auto
    then have "build_presets parse items (d0(k0 \<mapsto> p0)) \<noteq> Inr d1"
      using Cons.prems(2) by (rule Cons.IH)
    with Inr show ?thesis unfolding item by simp
  qed
qed

text \<open>
  C8. The display of \<open>PRESETS\<close> writes exactly one key twice, \<open>'biromantic alt 2'\<close> (the
  entries 18 and 19, counted from 0, of 43), and the dictionary that is built binds that
  name to the later entry, the palette \<open>['#740194', '#AEB1AA', '#FFFFFF', '#AEB1AA',
  '#740194']\<close>: the earlier entry is overwritten.
\<close>

theorem presets_duplicate_key_keeps_later_entry:
  "count_list (map fst PRESETS_literal) ''biromantic alt 2'' = 2
   \<and> distinct (remove1 ''biromantic alt 2'' (map fst PRESETS_literal))
   \<and> PRESETS_literal ! 18 =
       (''biromantic alt 2'', [''#8869A5'', ''#D8A7D8'', ''#FFFFFF'', ''#FDB18D'', ''#151638''])
   \<and> PRESETS_literal ! 19 =
       (''biromantic alt 2'', [''#740194'', ''#AEB1AA'', ''#FFFFFF'', ''#AEB1AA'', ''#740194''])
   \<and> (PRESETS parse = Inr d \<longrightarrow>
        (\<exists>profile. d ''biromantic alt 2'' = Some profile
           \<and> init parse (Strs [''#740194'', ''#AEB1AA'', ''#FFFFFF'', ''#AEB1AA'', ''#740194''])
               = Inr profile
           \<and> raw profile = Some [''#740194'', ''#AEB1AA'', ''#FFFFFF'', ''#AEB1AA'', ''#740194'']))"
proof -
  let ?later = "[''#740194'', ''#AEB1AA'', ''#FFFFFF'', ''#AEB1AA'', ''#740194'']"
  have "\<exists>profile. d ''biromantic alt 2'' = Some profile
           \<and> init parse (Strs ?later) = Inr profile \<and> raw profile = Some ?later"
    if built: "PRESETS parse = Inr d"
  proof -
    from built have b: "build_presets parse PRESETS_literal Map.empty = Inr d"
      by (simp add: PRESETS_def)
    have look: "d ''biromantic alt 2'' =
            (case init parse (Strs ?later) of Inl e \<Rightarrow> None | Inr p \<Rightarrow> Some p)"
      using build_presets_lookup [OF b, of "''biromantic alt 2''"]
      unfolding presets_entries(3) by simp
    have "\<not> isl (init parse (Strs ?later))"
    proof
      assume "isl (init parse (Strs ?later))"
      then have bad: "d ''biromantic alt 2'' = None"
        unfolding look by (cases "init parse (Strs ?later)") simp_all
      have "(''biromantic alt 2'', ?later) \<in> set PRESETS_literal"
        using presets_entries(2) presets_keys(3) nth_mem [of 19 PRESETS_literal] by simp
      then have "build_presets parse PRESETS_literal Map.empty \<noteq> Inr d"
        using \<open>isl (init parse (Strs ?later))\<close> by (rule build_presets_fails)
      with b show False by blast
    qed
    then obtain profile where p: "init parse (Strs ?later) = Inr profile"
      by (cases "init parse (Strs ?later)") simp_all
    then have "raw profile = Some ?later"
      by (auto split: sum.splits)
    with look p show ?thesis by simp
  qed
  with presets_keys(1,2) presets_entries(1,2) show ?thesis by blast
qed

theorem presets_duplicate_key_keeps_later_entry_witness:
  "\<exists>d. PRESETS from_hex = Inr d
       \<and> d ''biromantic alt 2'' =
           Some \<lparr>raw = Some [''#740194'', ''#AEB1AA'', ''#FFFFFF'', ''#AEB1AA'', ''#740194''],
                 colors = [RGB 116 1 148, RGB 174 177 170, RGB 255 255 255, RGB 174 177 170,
                           RGB 116 1 148],
                 spacing = Equal\<rparr>"
proof -
  from build_presets_succeeds [OF presets_all_parse, of Map.empty]
  obtain d where d: "PRESETS from_hex = Inr d"
    unfolding PRESETS_def by blast
  have i: "init from_hex (Strs [''#740194'', ''#AEB1AA'', ''#FFFFFF'', ''#AEB1AA'', ''#740194''])
         = Inr \<lparr>raw = Some [''#740194'', ''#AEB1AA'', ''#FFFFFF'', ''#AEB1AA'', ''#740194''],
                 colors = [RGB 116 1 148, RGB 174 177 170, RGB 255 255 255, RGB 174 177 170,
                           RGB 116 1 148],
                 spacing = Equal\<rparr>"
    by (simp add: from_hex_def hex_digit_def)
  from presets_duplicate_key_keeps_later_entry [of from_hex d] d i
  show ?thesis by auto
qed

end
